theory Spec2Isabelle
  imports
    Main
    "HOL-Library.AList"
    "HOL-Library.Char_ord"
    "HOL-Library.List_Lexorder"
    "HOL-Library.Product_Lexorder"
begin

section \<open>Data model (src/src/types.ts)\<close>

text \<open>
  \<^verbatim>\<open>KvMetadata = { ts: number; node_id: string }\<close> and
  \<^verbatim>\<open>CrdtOperation = { op: 'PUT' | 'DEL'; bucket; key; value: string | null; ts; node_id }\<close>.
  An operation carries the two metadata fields, so it is the record extension of the
  metadata record: \<open>ts\<close> and \<open>node_id\<close> read both. The field \<open>value\<close> of the source is
  \<open>val\<close> here; \<open>None\<close> is \<open>null\<close>.

  Timestamps are the integers \<open>Date.now()\<close> returns (milliseconds), so \<open>int\<close>.
  A string is the list of its code units, and \<open>>\<close> on strings in the source is the
  lexicographic order on these lists (a proper prefix is smaller), which is \<open><\<close> on
  \<open>string\<close> with the orders of \<open>Char_ord\<close> and \<open>List_Lexorder\<close>.
\<close>

datatype op_kind = PUT | DEL

record KvMetadata =
  ts :: int
  node_id :: string

record CrdtOperation = KvMetadata +
  op :: op_kind
  bucket :: string
  key :: string
  val :: "string option"

definition BUCKET_NAME :: string where
  "BUCKET_NAME = ''config''"

section \<open>The site: both buckets and what the agent did\<close>

text \<open>
  What a KV change notification of the watch carries: \<open>entry.key\<close>, \<open>entry.value\<close>
  (\<open>None\<close> is \<open>null\<close>) and \<open>entry.operation\<close>.
\<close>

datatype kv_operation = OpPUT | OpDEL | OpPURGE

record KvEntry =
  entry_key :: string
  entry_value :: "string option"
  operation :: kv_operation

text \<open>The lines the agent prints, by their place in the source.\<close>

datatype log_line =
    SyncIn string string
  | SyncOut op_kind string int
  | CycleStart
  | CycleEnd nat
  | CycleError

text \<open>
  Every effect of the agent on the outside, in the order it happens: a write to the
  metadata bucket, a write to or a delete from the data bucket, a publish to the
  replication subject, an acknowledgement, a printed line.
\<close>

datatype effect =
    MetaPut string KvMetadata
  | KvPut string string
  | KvDelete string
  | Publish CrdtOperation
  | Ack
  | Log log_line

text \<open>
  The data bucket \<open>config\<close> is an association list, since \<open>kv.keys()\<close> enumerates it;
  the metadata bucket \<open>config_meta\<close> is a map (it is only read and written by key, and
  never deleted from). The codecs \<open>sc\<close> and \<open>jc\<close> encode on the way in and decode on the
  way out, so the buckets hold the decoded values. \<open>effects\<close> is the trace.
\<close>

record site =
  kv :: "(string \<times> string) list"
  kvMeta :: "string \<rightharpoonup> KvMetadata"
  effects :: "effect list"

section \<open>Awaited calls that may reject\<close>

text \<open>
  Every \<open>await\<close> of the source is a call to the broker that either resolves or rejects.
  Which calls reject is given from outside as \<open>faults\<close>; a rejected call changes nothing
  and throws. A step runs alone: what the other two loops do between the awaits of a
  step is outside this model.
\<close>

datatype call =
    CKeys
  | CGet string
  | CPut string
  | CDelete string
  | CMetaGet string
  | CMetaPut string
  | CPublish string

type_synonym faults = "call \<Rightarrow> bool"

datatype error = Rejected call

type_synonym 'a io = "site \<Rightarrow> (error + 'a) \<times> site"

definition no_faults :: faults where
  "no_faults = (\<lambda>c. False)"

definition io_return :: "'a \<Rightarrow> 'a io" where
  "io_return x = (\<lambda>s. (Inr x, s))"

definition io_throw :: "error \<Rightarrow> 'a io" where
  "io_throw e = (\<lambda>s. (Inl e, s))"

definition io_bind :: "'a io \<Rightarrow> ('a \<Rightarrow> 'b io) \<Rightarrow> 'b io" where
  "io_bind m f = (\<lambda>s. case m s of (Inl e, s') \<Rightarrow> (Inl e, s') | (Inr x, s') \<Rightarrow> f x s')"

definition emit :: "effect \<Rightarrow> unit io" where
  "emit e = (\<lambda>s. (Inr (), s\<lparr>effects := effects s @ [e]\<rparr>))"

definition await :: "faults \<Rightarrow> call \<Rightarrow> 'a io \<Rightarrow> 'a io" where
  "await F c m = (if F c then io_throw (Rejected c) else m)"

definition kv_keys :: "faults \<Rightarrow> string list io" where
  "kv_keys F = await F CKeys (\<lambda>s. (Inr (map fst (kv s)), s))"

definition kv_get :: "faults \<Rightarrow> string \<Rightarrow> string option io" where
  "kv_get F k = await F (CGet k) (\<lambda>s. (Inr (map_of (kv s) k), s))"

definition kv_put :: "faults \<Rightarrow> string \<Rightarrow> string \<Rightarrow> unit io" where
  "kv_put F k v = await F (CPut k)
     (\<lambda>s. (Inr (), s\<lparr>kv := AList.update k v (kv s), effects := effects s @ [KvPut k v]\<rparr>))"

definition kv_delete :: "faults \<Rightarrow> string \<Rightarrow> unit io" where
  "kv_delete F k = await F (CDelete k)
     (\<lambda>s. (Inr (), s\<lparr>kv := AList.delete k (kv s), effects := effects s @ [KvDelete k]\<rparr>))"

definition kvMeta_get :: "faults \<Rightarrow> string \<Rightarrow> KvMetadata option io" where
  "kvMeta_get F k = await F (CMetaGet k) (\<lambda>s. (Inr (kvMeta s k), s))"

definition kvMeta_put :: "faults \<Rightarrow> string \<Rightarrow> KvMetadata \<Rightarrow> unit io" where
  "kvMeta_put F k m = await F (CMetaPut k)
     (\<lambda>s. (Inr (), s\<lparr>kvMeta := (kvMeta s)(k \<mapsto> m), effects := effects s @ [MetaPut k m]\<rparr>))"

definition js_publish :: "faults \<Rightarrow> CrdtOperation \<Rightarrow> unit io" where
  "js_publish F rop = await F (CPublish (key rop)) (emit (Publish rop))"

definition console_log :: "log_line \<Rightarrow> unit io" where
  "console_log l = emit (Log l)"

definition m_ack :: "unit io" where
  "m_ack = emit Ack"

section \<open>Remote listener (src/src/index.ts, startRemoteListener)\<close>

text \<open>
  \<open>localMeta\<close> of the loop body: the record read from the metadata bucket, or the
  default the source starts from when there is none.
\<close>

definition localMeta_of :: "KvMetadata option \<Rightarrow> KvMetadata" where
  "localMeta_of metaEntry =
     (case metaEntry of None \<Rightarrow> \<lparr>ts = 0, node_id = ''''\<rparr> | Some m \<Rightarrow> m)"

text \<open>The constant \<open>remoteWins\<close> of the loop body, as a function of what it reads.\<close>

definition remoteWins :: "CrdtOperation \<Rightarrow> KvMetadata \<Rightarrow> bool" where
  "remoteWins rop localMeta \<longleftrightarrow>
     ts rop > ts localMeta \<or> (ts rop = ts localMeta \<and> node_id rop > node_id localMeta)"

text \<open>The body of \<open>for await (const m of sub)\<close>, for one message carrying \<open>rop\<close>.\<close>

definition on_message :: "faults \<Rightarrow> string \<Rightarrow> CrdtOperation \<Rightarrow> unit io" where
  "on_message F NODE_ID rop =
     (if node_id rop = NODE_ID then m_ack
      else io_bind (kvMeta_get F (key rop)) (\<lambda>metaEntry.
        let localMeta = localMeta_of metaEntry
        in if remoteWins rop localMeta then
             io_bind (console_log (SyncIn (node_id rop) (key rop))) (\<lambda>_.
             io_bind (kvMeta_put F (key rop) \<lparr>ts = ts rop, node_id = node_id rop\<rparr>) (\<lambda>_.
             io_bind (if op rop = PUT \<and> val rop \<noteq> None
                        then kv_put F (key rop) (the (val rop))
                      else if op rop = DEL then kv_delete F (key rop)
                      else io_return ()) (\<lambda>_.
             m_ack)))
           else m_ack))"

text \<open>The loop over the messages delivered so far; a rejected call ends it.\<close>

fun remote_listener :: "faults \<Rightarrow> string \<Rightarrow> CrdtOperation list \<Rightarrow> unit io" where
  "remote_listener F NODE_ID [] s = (Inr (), s)"
| "remote_listener F NODE_ID (m # ms) s =
     (case on_message F NODE_ID m s of
        (Inl e, s') \<Rightarrow> (Inl e, s')
      | (Inr _, s') \<Rightarrow> remote_listener F NODE_ID ms s')"

section \<open>Local watcher (src/src/index.ts, startLocalWatcher)\<close>

text \<open>
  The body of \<open>for await (const entry of watch)\<close>; \<open>now\<close> is what \<open>Date.now()\<close> returns
  in this iteration, and \<open>None\<close> is the empty entry the loop skips.
\<close>

definition on_entry :: "faults \<Rightarrow> string \<Rightarrow> int \<Rightarrow> KvEntry option \<Rightarrow> unit io" where
  "on_entry F NODE_ID now entry_opt =
     (case entry_opt of
        None \<Rightarrow> io_return ()
      | Some entry \<Rightarrow>
          let k = entry_key entry;
              v = (case entry_value entry of None \<Rightarrow> None | Some b \<Rightarrow> Some b);
              opType = (if operation entry = OpDEL \<or> entry_value entry = None then DEL else PUT)
          in io_bind (kvMeta_get F k) (\<lambda>currentMeta.
               if currentMeta \<noteq> None \<and> node_id (the currentMeta) \<noteq> NODE_ID then io_return ()
               else
                 io_bind (kvMeta_put F k \<lparr>ts = now, node_id = NODE_ID\<rparr>) (\<lambda>_.
                 io_bind (js_publish F \<lparr>ts = now, node_id = NODE_ID, op = opType,
                                         bucket = BUCKET_NAME, key = k, val = v\<rparr>) (\<lambda>_.
                 console_log (SyncOut opType k now)))))"

section \<open>Anti-entropy (src/src/index.ts, startAntiEntropy)\<close>

text \<open>
  The body of \<open>for await (const key of keys)\<close> with its counter. A rejected call leaves
  the loop: the \<open>try\<close> is around the whole loop, not inside it.
\<close>

fun reconcile_keys :: "faults \<Rightarrow> string list \<Rightarrow> nat \<Rightarrow> nat io" where
  "reconcile_keys F [] count s = (Inr count, s)"
| "reconcile_keys F (k # ks) count s =
     (case kv_get F k s of
        (Inl e, s1) \<Rightarrow> (Inl e, s1)
      | (Inr entry, s1) \<Rightarrow>
          (case kvMeta_get F k s1 of
             (Inl e, s2) \<Rightarrow> (Inl e, s2)
           | (Inr metaEntry, s2) \<Rightarrow>
               if entry = None \<or> metaEntry = None then reconcile_keys F ks count s2
               else
                 (case js_publish F \<lparr>ts = ts (the metaEntry), node_id = node_id (the metaEntry),
                                       op = PUT, bucket = BUCKET_NAME, key = k,
                                       val = Some (the entry)\<rparr> s2 of
                    (Inl e, s3) \<Rightarrow> (Inl e, s3)
                  | (Inr _, s3) \<Rightarrow> reconcile_keys F ks (count + 1) s3)))"

text \<open>
  One run of the timer's callback: the opening line, then the \<open>try\<close> block, whose
  \<open>catch\<close> prints the error and returns.
\<close>

definition antiEntropy_cycle :: "faults \<Rightarrow> site \<Rightarrow> site" where
  "antiEntropy_cycle F s =
     (case io_bind (console_log CycleStart) (\<lambda>_. (\<lambda>s0.
             case io_bind (kv_keys F) (\<lambda>keys.
                  io_bind (reconcile_keys F keys 0) (\<lambda>count.
                  console_log (CycleEnd count))) s0 of
               (Inl err, s') \<Rightarrow> console_log CycleError s'
             | (Inr u, s') \<Rightarrow> (Inr u, s'))) s of
        (_, s'') \<Rightarrow> s'')"

text \<open>\<open>setInterval\<close>: one cycle per tick, each tick with the faults of its time.\<close>

fun startAntiEntropy :: "faults list \<Rightarrow> site \<Rightarrow> site" where
  "startAntiEntropy [] s = s"
| "startAntiEntropy (F # Fs) s = startAntiEntropy Fs (antiEntropy_cycle F s)"

section \<open>Reading a site\<close>

text \<open>The site a computation leaves behind, whether it returned or threw.\<close>

definition exec :: "'a io \<Rightarrow> site \<Rightarrow> site" where
  "exec m s = snd (m s)"

text \<open>The effects a step added to the trace.\<close>

definition added :: "site \<Rightarrow> site \<Rightarrow> effect list" where
  "added s s' = drop (length (effects s)) (effects s')"

text \<open>Does an effect write to a bucket?\<close>

fun is_meta_write :: "effect \<Rightarrow> bool" where
  "is_meta_write (MetaPut k m) = True"
| "is_meta_write e = False"

fun is_data_write :: "effect \<Rightarrow> bool" where
  "is_data_write (KvPut k v) = True"
| "is_data_write (KvDelete k) = True"
| "is_data_write e = False"

definition writes :: "effect list \<Rightarrow> effect list" where
  "writes es = filter (\<lambda>e. is_meta_write e \<or> is_data_write e) es"

text \<open>The operations published, in order.\<close>

fun publishes :: "effect list \<Rightarrow> CrdtOperation list" where
  "publishes [] = []"
| "publishes (Publish p # es) = p # publishes es"
| "publishes (e # es) = publishes es"

text \<open>
  The mutation of the data bucket an applied operation asks for (the
  \<open>if\<close>/\<open>else if\<close> after the metadata write): a \<open>PUT\<close> with a value writes it, a
  \<open>DEL\<close> deletes, a \<open>PUT\<close> of \<open>null\<close> does neither.
\<close>

definition data_effects :: "CrdtOperation \<Rightarrow> effect list" where
  "data_effects rop =
     (if op rop = PUT \<and> val rop \<noteq> None then [KvPut (key rop) (the (val rop))]
      else if op rop = DEL then [KvDelete (key rop)]
      else [])"

text \<open>
  What an effect does to the two buckets, and the buckets a list of effects leaves when
  they are carried out in order: the trace read as writes.
\<close>

fun apply_effect ::
  "effect \<Rightarrow> (string \<times> string) list \<times> (string \<rightharpoonup> KvMetadata)
     \<Rightarrow> (string \<times> string) list \<times> (string \<rightharpoonup> KvMetadata)" where
  "apply_effect (MetaPut k m) (d, md) = (d, md(k \<mapsto> m))"
| "apply_effect (KvPut k v) (d, md) = (AList.update k v d, md)"
| "apply_effect (KvDelete k) (d, md) = (AList.delete k d, md)"
| "apply_effect e (d, md) = (d, md)"

definition replay ::
  "effect list \<Rightarrow> (string \<times> string) list \<times> (string \<rightharpoonup> KvMetadata)
     \<Rightarrow> (string \<times> string) list \<times> (string \<rightharpoonup> KvMetadata)" where
  "replay es st = fold apply_effect es st"

text \<open>What a site holds for one key: the value and the metadata record.\<close>

definition view :: "site \<Rightarrow> string \<Rightarrow> string option \<times> KvMetadata option" where
  "view s k = (map_of (kv s) k, kvMeta s k)"

text \<open>
  The pair the rule compares, for an operation or a metadata record; pairs are ordered
  lexicographically (\<open>Product_Lexorder\<close>).
\<close>

definition stamp :: "'a KvMetadata_scheme \<Rightarrow> int \<times> string" where
  "stamp m = (ts m, node_id m)"

text \<open>What a key holds right after an operation with a value (or a \<open>DEL\<close>) was applied.\<close>

definition outcome :: "CrdtOperation \<Rightarrow> string option \<times> KvMetadata option" where
  "outcome m = (if op m = DEL then None else val m, Some \<lparr>ts = ts m, node_id = node_id m\<rparr>)"

text \<open>The operation is foreign and wins against what the site holds for its key.\<close>

definition beats :: "string \<Rightarrow> CrdtOperation \<Rightarrow> site \<Rightarrow> bool" where
  "beats N m s \<longleftrightarrow> node_id m \<noteq> N \<and> remoteWins m (localMeta_of (kvMeta s (key m)))"

text \<open>
  What a run over the operations \<open>ms\<close> of key \<open>K\<close> can leave as the view \<open>v\<close> of \<open>K\<close>:
  the view it started from when no operation beats it, and otherwise the outcome of a
  beating operation of greatest stamp.
\<close>

definition settled ::
  "string \<Rightarrow> string \<Rightarrow> CrdtOperation list \<Rightarrow> site
     \<Rightarrow> string option \<times> KvMetadata option \<Rightarrow> bool" where
  "settled N K ms s v \<longleftrightarrow>
     (v = view s K \<and> (\<forall>m \<in> set ms. \<not> beats N m s))
   \<or> (\<exists>m \<in> set ms. beats N m s \<and> v = outcome m
         \<and> (\<forall>m' \<in> set ms. node_id m' \<noteq> N \<longrightarrow> stamp m' \<le> stamp m))"

text \<open>The echo filter's test: a metadata record exists and names another site.\<close>

definition foreign_meta :: "site \<Rightarrow> string \<Rightarrow> string \<Rightarrow> bool" where
  "foreign_meta s NODE_ID k =
     (case kvMeta s k of None \<Rightarrow> False | Some m \<Rightarrow> node_id m \<noteq> NODE_ID)"

text \<open>
  The operations a pass over the keys \<open>ks\<close> re-publishes from the buckets of \<open>s\<close>:
  one for each key with a value and a metadata record, carrying both as stored.
\<close>

fun rebroadcast :: "site \<Rightarrow> string list \<Rightarrow> CrdtOperation list" where
  "rebroadcast s [] = []"
| "rebroadcast s (k # ks) =
     (case (map_of (kv s) k, kvMeta s k) of
        (Some v, Some m) \<Rightarrow>
          \<lparr>ts = ts m, node_id = node_id m, op = PUT, bucket = BUCKET_NAME, key = k,
           val = Some v\<rparr> # rebroadcast s ks
      | _ \<Rightarrow> rebroadcast s ks)"

text \<open>Reconciling key \<open>k\<close> raises: one of the calls it awaits rejects.\<close>

definition raises_at :: "faults \<Rightarrow> site \<Rightarrow> string \<Rightarrow> bool" where
  "raises_at F s k \<longleftrightarrow>
     F (CGet k) \<or> F (CMetaGet k)
     \<or> (map_of (kv s) k \<noteq> None \<and> kvMeta s k \<noteq> None \<and> F (CPublish k))"

section \<open>Example sites and operations\<close>

definition site0 :: site where
  "site0 = \<lparr>kv = [], kvMeta = Map.empty, effects = []\<rparr>"

definition opA :: CrdtOperation where
  "opA = \<lparr>ts = 5, node_id = ''a'', op = PUT, bucket = ''config'', key = ''x'',
          val = Some ''1''\<rparr>"

definition opB :: CrdtOperation where
  "opB = \<lparr>ts = 3, node_id = ''b'', op = PUT, bucket = ''config'', key = ''x'',
          val = Some ''2''\<rparr>"

text \<open>A second operation of site \<open>a\<close> in the same millisecond as \<open>opA\<close>.\<close>

definition opA2 :: CrdtOperation where
  "opA2 = \<lparr>ts = 5, node_id = ''a'', op = PUT, bucket = ''config'', key = ''x'',
           val = Some ''2''\<rparr>"

definition opNull :: CrdtOperation where
  "opNull = \<lparr>ts = 7, node_id = ''b'', op = PUT, bucket = ''config'', key = ''x'',
             val = None\<rparr>"

definition opDel :: CrdtOperation where
  "opDel = \<lparr>ts = 5, node_id = ''b'', op = DEL, bucket = ''config'', key = ''x'',
            val = None\<rparr>"

text \<open>Key \<open>x\<close> written by site \<open>a\<close> at time 1.\<close>

definition siteX :: site where
  "siteX = \<lparr>kv = [(''x'', ''old'')],
            kvMeta = [''x'' \<mapsto> \<lparr>ts = 1, node_id = ''a''\<rparr>],
            effects = []\<rparr>"

text \<open>Four keys, the last without a metadata record.\<close>

definition siteABCD :: site where
  "siteABCD = \<lparr>kv = [(''a'', ''1''), (''b'', ''2''), (''c'', ''3''), (''d'', ''4'')],
               kvMeta = [''a'' \<mapsto> \<lparr>ts = 1, node_id = ''n1''\<rparr>,
                         ''b'' \<mapsto> \<lparr>ts = 2, node_id = ''n2''\<rparr>,
                         ''c'' \<mapsto> \<lparr>ts = 3, node_id = ''n1''\<rparr>],
               effects = []\<rparr>"

definition failGetB :: faults where
  "failGetB = (\<lambda>c. c = CGet ''b'')"

text \<open>The write of key \<open>x\<close> to the data bucket, or to the metadata bucket, rejects.\<close>

definition failPutX :: faults where
  "failPutX = (\<lambda>c. c = CPut ''x'')"

definition failMetaPutX :: faults where
  "failMetaPutX = (\<lambda>c. c = CMetaPut ''x'')"

definition entryX :: KvEntry where
  "entryX = \<lparr>entry_key = ''x'', entry_value = Some ''new'', operation = OpPUT\<rparr>"

section \<open>Facts about the calls and the steps\<close>

lemmas io_defs =
  io_bind_def io_return_def io_throw_def emit_def await_def no_faults_def
  kv_keys_def kv_get_def kv_put_def kv_delete_def kvMeta_get_def kvMeta_put_def
  js_publish_def console_log_def m_ack_def

lemmas example_defs =
  site0_def opA_def opB_def opA2_def opNull_def opDel_def siteX_def siteABCD_def
  failGetB_def failPutX_def failMetaPutX_def entryX_def BUCKET_NAME_def

lemma on_message_self:
  "node_id rop = N \<Longrightarrow> on_message F N rop s = (Inr (), s\<lparr>effects := effects s @ [Ack]\<rparr>)"
  by (simp add: on_message_def io_defs)

lemma on_message_lose:
  "node_id rop \<noteq> N \<Longrightarrow> \<not> remoteWins rop (localMeta_of (kvMeta s (key rop))) \<Longrightarrow>
   on_message no_faults N rop s = (Inr (), s\<lparr>effects := effects s @ [Ack]\<rparr>)"
  by (simp add: on_message_def io_defs)

lemma on_message_win:
  "node_id rop \<noteq> N \<Longrightarrow> remoteWins rop (localMeta_of (kvMeta s (key rop))) \<Longrightarrow>
   on_message no_faults N rop s =
     (Inr (), s\<lparr>kv := (if op rop = PUT \<and> val rop \<noteq> None
                          then AList.update (key rop) (the (val rop)) (kv s)
                        else if op rop = DEL then AList.delete (key rop) (kv s)
                        else kv s),
                kvMeta := (kvMeta s)(key rop \<mapsto> \<lparr>ts = ts rop, node_id = node_id rop\<rparr>),
                effects := effects s @
                  [Log (SyncIn (node_id rop) (key rop)),
                   MetaPut (key rop) \<lparr>ts = ts rop, node_id = node_id rop\<rparr>]
                  @ data_effects rop @ [Ack]\<rparr>)"
  by (cases "val rop") (simp_all add: on_message_def io_defs data_effects_def)

lemma data_write_after_meta:
  "filter is_data_write (added s (exec (on_message F N rop) s)) \<noteq> [] \<longrightarrow>
     MetaPut (key rop) \<lparr>ts = ts rop, node_id = node_id rop\<rparr>
       \<in> set (takeWhile (\<lambda>e. \<not> is_data_write e) (added s (exec (on_message F N rop) s)))"
  by (cases "val rop")
     (simp_all add: on_message_def io_bind_def io_return_def io_throw_def emit_def await_def
        kv_put_def kv_delete_def kvMeta_get_def kvMeta_put_def console_log_def m_ack_def
        exec_def added_def)

lemmas step_defs =
  on_message_def io_bind_def io_return_def io_throw_def emit_def await_def
  kv_put_def kv_delete_def kvMeta_get_def kvMeta_put_def console_log_def m_ack_def

lemma on_message_replay:
  "(kv (exec (on_message F N rop) s), kvMeta (exec (on_message F N rop) s))
     = replay (added s (exec (on_message F N rop) s)) (kv s, kvMeta s)"
  by (cases "val rop")
     (simp_all add: step_defs exec_def added_def replay_def)

lemma data_mutated_meta_written:
  "kv (exec (on_message F N rop) s) \<noteq> kv s \<longrightarrow>
     kvMeta (exec (on_message F N rop) s)
       = (kvMeta s)(key rop \<mapsto> \<lparr>ts = ts rop, node_id = node_id rop\<rparr>)"
  by (cases "val rop")
     (simp_all add: step_defs exec_def)

lemma data_call_rejected:
  assumes "node_id rop \<noteq> N" and "remoteWins rop (localMeta_of (kvMeta s (key rop)))"
    and "\<not> F (CMetaGet (key rop))" and "\<not> F (CMetaPut (key rop))"
    and "(op rop = PUT \<and> val rop \<noteq> None \<and> F (CPut (key rop)))
         \<or> (op rop = DEL \<and> F (CDelete (key rop)))"
  shows "kvMeta (exec (on_message F N rop) s)
           = (kvMeta s)(key rop \<mapsto> \<lparr>ts = ts rop, node_id = node_id rop\<rparr>)
       \<and> kv (exec (on_message F N rop) s) = kv s"
  using assms by (cases "val rop") (auto simp: step_defs exec_def)

lemma on_message_win_data:
  assumes "node_id rop \<noteq> N" and "remoteWins rop (localMeta_of (kvMeta s (key rop)))"
  shows "map_of (kv (exec (on_message no_faults N rop) s))
           = (if op rop = DEL then (map_of (kv s))(key rop := None)
              else case val rop of
                     None \<Rightarrow> map_of (kv s)
                   | Some v \<Rightarrow> (map_of (kv s))(key rop \<mapsto> v))"
  using assms
  by (cases "op rop"; cases "val rop")
     (simp_all add: on_message_win exec_def update_conv' delete_conv')

lemma remoteWins_irrefl:
  "\<not> remoteWins rop (localMeta_of (Some \<lparr>ts = ts rop, node_id = node_id rop\<rparr>))"
  by (simp add: remoteWins_def localMeta_of_def)

lemma remoteWins_stamp: "remoteWins m l \<longleftrightarrow> stamp l < stamp m"
  by (auto simp: remoteWins_def stamp_def)

section \<open>The LWW decision\<close>

text \<open>
  C1. For a received operation of another site, let \<open>local\<close> be the metadata record
  stored for its key, or \<open>{ts: 0, node_id: ""}\<close> when there is none. When
  \<open>op.ts > local.ts\<close>, or \<open>op.ts = local.ts\<close> and \<open>op.node_id\<close> is lexicographically
  greater than \<open>local.node_id\<close>, the listener applies the operation: the metadata record
  of the key becomes the operation's, which changes the metadata bucket, the data bucket
  is mutated as the operation asks, and the metadata write stands in the trace.
  Otherwise it does not: both buckets stay as they are and the trace has no write.
\<close>

theorem lww_decision_iff:
  assumes "node_id rop \<noteq> NODE_ID"
  shows "let local = (case kvMeta s (key rop) of
                        None \<Rightarrow> \<lparr>ts = 0, node_id = ''''\<rparr>
                      | Some m \<Rightarrow> m)
         in if ts rop > ts local \<or> (ts rop = ts local \<and> node_id rop > node_id local)
            then kvMeta (exec (on_message no_faults NODE_ID rop) s)
                   = (kvMeta s)(key rop \<mapsto> \<lparr>ts = ts rop, node_id = node_id rop\<rparr>)
               \<and> kvMeta (exec (on_message no_faults NODE_ID rop) s) \<noteq> kvMeta s
               \<and> map_of (kv (exec (on_message no_faults NODE_ID rop) s))
                   = (if op rop = DEL then (map_of (kv s))(key rop := None)
                      else case val rop of
                             None \<Rightarrow> map_of (kv s)
                           | Some v \<Rightarrow> (map_of (kv s))(key rop \<mapsto> v))
               \<and> MetaPut (key rop) \<lparr>ts = ts rop, node_id = node_id rop\<rparr>
                   \<in> set (added s (exec (on_message no_faults NODE_ID rop) s))
            else kv (exec (on_message no_faults NODE_ID rop) s) = kv s
               \<and> kvMeta (exec (on_message no_faults NODE_ID rop) s) = kvMeta s
               \<and> writes (added s (exec (on_message no_faults NODE_ID rop) s)) = []"
proof (cases "remoteWins rop (localMeta_of (kvMeta s (key rop)))")
  case True
  then have cond: "let local = (case kvMeta s (key rop) of
                        None \<Rightarrow> \<lparr>ts = 0, node_id = ''''\<rparr> | Some m \<Rightarrow> m)
         in ts rop > ts local \<or> (ts rop = ts local \<and> node_id rop > node_id local)"
    by (simp add: remoteWins_def localMeta_of_def Let_def)
  from True have changed:
    "(kvMeta s)(key rop \<mapsto> \<lparr>ts = ts rop, node_id = node_id rop\<rparr>) \<noteq> kvMeta s"
  proof (cases "kvMeta s (key rop)")
    case None
    then show ?thesis by (metis fun_upd_same option.distinct(1))
  next
    case (Some m)
    with True have "m \<noteq> \<lparr>ts = ts rop, node_id = node_id rop\<rparr>"
      by (auto simp: remoteWins_def localMeta_of_def)
    with Some show ?thesis by (metis fun_upd_same option.inject)
  qed
  from assms True
  have s': "exec (on_message no_faults NODE_ID rop) s =
     s\<lparr>kv := (if op rop = PUT \<and> val rop \<noteq> None
                          then AList.update (key rop) (the (val rop)) (kv s)
                        else if op rop = DEL then AList.delete (key rop) (kv s)
                        else kv s),
                kvMeta := (kvMeta s)(key rop \<mapsto> \<lparr>ts = ts rop, node_id = node_id rop\<rparr>),
                effects := effects s @
                  [Log (SyncIn (node_id rop) (key rop)),
                   MetaPut (key rop) \<lparr>ts = ts rop, node_id = node_id rop\<rparr>]
                  @ data_effects rop @ [Ack]\<rparr>"
    by (simp add: on_message_win exec_def)
  have data: "map_of (kv (exec (on_message no_faults NODE_ID rop) s))
                   = (if op rop = DEL then (map_of (kv s))(key rop := None)
                      else case val rop of
                             None \<Rightarrow> map_of (kv s)
                           | Some v \<Rightarrow> (map_of (kv s))(key rop \<mapsto> v))"
    unfolding s' by (cases "op rop"; cases "val rop") (simp_all add: update_conv' delete_conv')
  have meta: "kvMeta (exec (on_message no_faults NODE_ID rop) s)
                   = (kvMeta s)(key rop \<mapsto> \<lparr>ts = ts rop, node_id = node_id rop\<rparr>)"
    unfolding s' by simp
  have lab: "MetaPut (key rop) \<lparr>ts = ts rop, node_id = node_id rop\<rparr>
                   \<in> set (added s (exec (on_message no_faults NODE_ID rop) s))"
    unfolding s' by (simp add: added_def)
  from cond data meta lab changed show ?thesis
    by (simp add: Let_def)
next
  case False
  then have cond: "\<not> (let local = (case kvMeta s (key rop) of
                        None \<Rightarrow> \<lparr>ts = 0, node_id = ''''\<rparr> | Some m \<Rightarrow> m)
         in ts rop > ts local \<or> (ts rop = ts local \<and> node_id rop > node_id local))"
    by (simp add: remoteWins_def localMeta_of_def Let_def)
  from assms False
  have "exec (on_message no_faults NODE_ID rop) s = s\<lparr>effects := effects s @ [Ack]\<rparr>"
    by (simp add: on_message_lose exec_def)
  with cond show ?thesis
    by (simp add: Let_def added_def writes_def)
qed


theorem lww_decision_iff_witness:
  "view (exec (on_message no_faults ''c'' opB) site0) ''x''
     = (Some ''2'', Some \<lparr>ts = 3, node_id = ''b''\<rparr>)
   \<and> view (exec (on_message no_faults ''c'' (opB\<lparr>ts := 0\<rparr>)) site0) ''x''
     = (Some ''2'', Some \<lparr>ts = 0, node_id = ''b''\<rparr>)
   \<and> view (exec (on_message no_faults ''c'' (opB\<lparr>ts := - 1\<rparr>)) site0) ''x'' = (None, None)
   \<and> view (exec (on_message no_faults ''c'' (opB\<lparr>ts := 1\<rparr>)) siteX) ''x''
     = (Some ''2'', Some \<lparr>ts = 1, node_id = ''b''\<rparr>)
   \<and> view (exec (on_message no_faults ''c'' (opB\<lparr>ts := 1, node_id := ''a''\<rparr>)) siteX) ''x''
     = (Some ''old'', Some \<lparr>ts = 1, node_id = ''a''\<rparr>)"
proof -
  have n: "node_id opB \<noteq> ''c''" "node_id (opB\<lparr>ts := 0\<rparr>) \<noteq> ''c''"
    "node_id (opB\<lparr>ts := - 1\<rparr>) \<noteq> ''c''" "node_id (opB\<lparr>ts := 1\<rparr>) \<noteq> ''c''"
    "node_id (opB\<lparr>ts := 1, node_id := ''a''\<rparr>) \<noteq> ''c''"
    by (simp_all add: example_defs)
  from lww_decision_iff [OF n(1), of site0] lww_decision_iff [OF n(2), of site0]
    lww_decision_iff [OF n(3), of site0] lww_decision_iff [OF n(4), of siteX]
    lww_decision_iff [OF n(5), of siteX]
  show ?thesis
    by (simp add: example_defs view_def Let_def)
qed

section \<open>Redelivery\<close>

text \<open>
  C3. Applying the same operation twice in a row leaves both buckets exactly as applying
  it once does, so in particular the value and the metadata record of its key.
\<close>

theorem redelivery_idempotent:
  "kv (exec (on_message no_faults NODE_ID rop) (exec (on_message no_faults NODE_ID rop) s))
     = kv (exec (on_message no_faults NODE_ID rop) s)
   \<and> kvMeta (exec (on_message no_faults NODE_ID rop) (exec (on_message no_faults NODE_ID rop) s))
     = kvMeta (exec (on_message no_faults NODE_ID rop) s)
   \<and> view (exec (on_message no_faults NODE_ID rop) (exec (on_message no_faults NODE_ID rop) s))
        (key rop)
     = view (exec (on_message no_faults NODE_ID rop) s) (key rop)"
proof (cases "node_id rop = NODE_ID")
  case True
  then show ?thesis by (simp add: on_message_self exec_def view_def)
next
  case other: False
  show ?thesis
  proof (cases "remoteWins rop (localMeta_of (kvMeta s (key rop)))")
    case True
    let ?s1 = "exec (on_message no_faults NODE_ID rop) s"
    from other True
    have m: "kvMeta ?s1 (key rop) = Some \<lparr>ts = ts rop, node_id = node_id rop\<rparr>"
      by (simp add: on_message_win exec_def)
    have "\<not> remoteWins rop (localMeta_of (kvMeta ?s1 (key rop)))"
      unfolding m by (rule remoteWins_irrefl)
    with other
    have "on_message no_faults NODE_ID rop ?s1 = (Inr (), ?s1\<lparr>effects := effects ?s1 @ [Ack]\<rparr>)"
      by (rule on_message_lose)
    then have "exec (on_message no_faults NODE_ID rop) ?s1 = ?s1\<lparr>effects := effects ?s1 @ [Ack]\<rparr>"
      by (simp add: exec_def)
    then show ?thesis by (simp add: view_def)
  next
    case False
    with other show ?thesis by (simp add: on_message_lose exec_def view_def)
  qed
qed

theorem redelivery_idempotent_witness:
  "view (exec (on_message no_faults ''c'' opA) (exec (on_message no_faults ''c'' opA) siteX)) ''x''
     = (Some ''1'', Some \<lparr>ts = 5, node_id = ''a''\<rparr>)"
proof -
  have "view (exec (on_message no_faults ''c'' opA) siteX) ''x''
          = (Some ''1'', Some \<lparr>ts = 5, node_id = ''a''\<rparr>)"
    by (simp add: example_defs exec_def view_def on_message_def io_defs localMeta_of_def
          remoteWins_def)
  with redelivery_idempotent [of "''c''" opA siteX] show ?thesis
    by (simp add: example_defs)
qed

section \<open>Tombstones\<close>

text \<open>
  C4. Once a \<open>DEL\<close> for key \<open>K\<close> has been applied, the key is absent from the data bucket
  and its metadata record carries the delete's timestamp and origin; a \<open>PUT\<close> for \<open>K\<close>
  delivered next whose (timestamp, origin) is smaller in the LWW order leaves the key
  absent and the metadata record as the delete left it.
\<close>

theorem tombstone_precedence:
  assumes "op d = DEL" and "key d = K" and "node_id d \<noteq> NODE_ID"
    and "remoteWins d (localMeta_of (kvMeta s K))"
    and "op p = PUT" and "key p = K"
    and "ts p < ts d \<or> (ts p = ts d \<and> node_id p < node_id d)"
  shows "map_of (kv (exec (on_message no_faults NODE_ID d) s)) K = None
       \<and> kvMeta (exec (on_message no_faults NODE_ID d) s) K
           = Some \<lparr>ts = ts d, node_id = node_id d\<rparr>
       \<and> map_of (kv (exec (on_message no_faults NODE_ID p)
                       (exec (on_message no_faults NODE_ID d) s))) K = None
       \<and> kvMeta (exec (on_message no_faults NODE_ID p)
                   (exec (on_message no_faults NODE_ID d) s)) K
           = Some \<lparr>ts = ts d, node_id = node_id d\<rparr>"
proof -
  let ?s1 = "exec (on_message no_faults NODE_ID d) s"
  from assms(1-4) have s1: "?s1 = s\<lparr>kv := AList.delete K (kv s),
        kvMeta := (kvMeta s)(K \<mapsto> \<lparr>ts = ts d, node_id = node_id d\<rparr>),
        effects := effects s @ [Log (SyncIn (node_id d) K),
                   MetaPut K \<lparr>ts = ts d, node_id = node_id d\<rparr>] @ data_effects d @ [Ack]\<rparr>"
    by (simp add: on_message_win exec_def)
  have absent: "map_of (kv ?s1) K = None"
    and meta: "kvMeta ?s1 K = Some \<lparr>ts = ts d, node_id = node_id d\<rparr>"
    unfolding s1 by (simp_all add: delete_conv')
  from assms(7) have lose: "\<not> remoteWins p (localMeta_of (kvMeta ?s1 (key p)))"
    unfolding assms(6) meta by (auto simp: remoteWins_def localMeta_of_def)
  have "on_message no_faults NODE_ID p ?s1 = (Inr (), ?s1\<lparr>effects := effects ?s1 @ [Ack]\<rparr>)"
  proof (cases "node_id p = NODE_ID")
    case True
    then show ?thesis by (rule on_message_self)
  next
    case False
    then show ?thesis using lose by (rule on_message_lose)
  qed
  then have "exec (on_message no_faults NODE_ID p) ?s1 = ?s1\<lparr>effects := effects ?s1 @ [Ack]\<rparr>"
    by (simp add: exec_def)
  with absent meta show ?thesis by simp
qed

theorem tombstone_precedence_witness:
  "map_of (kv siteX) ''x'' = Some ''old''
   \<and> view (exec (on_message no_faults ''c'' opDel) siteX) ''x''
       = (None, Some \<lparr>ts = 5, node_id = ''b''\<rparr>)
   \<and> view (exec (on_message no_faults ''c'' opA) (exec (on_message no_faults ''c'' opDel) siteX))
        ''x''
       = (None, Some \<lparr>ts = 5, node_id = ''b''\<rparr>)"
proof -
  have h: "op opDel = DEL" "key opDel = ''x''" "node_id opDel \<noteq> ''c''"
    "remoteWins opDel (localMeta_of (kvMeta siteX ''x''))"
    "op opA = PUT" "key opA = ''x''"
    "ts opA < ts opDel \<or> (ts opA = ts opDel \<and> node_id opA < node_id opDel)"
    by (simp_all add: example_defs remoteWins_def localMeta_of_def)
  from tombstone_precedence [OF h] show ?thesis
    by (simp add: view_def) (simp add: example_defs)
qed

section \<open>Self-echo suppression\<close>

text \<open>
  C5. A received operation whose \<open>node_id\<close> is the local site id leaves the data bucket
  and the metadata bucket as they are, whatever calls would reject, and the only effect
  of the step is the acknowledgement of the message.
\<close>

theorem self_echo_only_acks:
  assumes "node_id rop = NODE_ID"
  shows "fst (on_message F NODE_ID rop s) = Inr ()
       \<and> kv (exec (on_message F NODE_ID rop) s) = kv s
       \<and> kvMeta (exec (on_message F NODE_ID rop) s) = kvMeta s
       \<and> added s (exec (on_message F NODE_ID rop) s) = [Ack]"
  using assms by (simp add: on_message_self exec_def added_def)

theorem self_echo_only_acks_witness:
  "node_id opA = ''a''
   \<and> exec (on_message no_faults ''a'' opA) site0
       = \<lparr>kv = [], kvMeta = Map.empty, effects = [Ack]\<rparr>"
  using self_echo_only_acks [of opA "''a''" no_faults site0]
  by (simp add: example_defs added_def)

section \<open>Metadata before data\<close>

text \<open>
  C6. When a received operation of another site wins, the step sets the metadata record
  of the key to the operation's and mutates the data bucket as the operation asks, in
  this order: in the trace the metadata write stands before the first mutation of the
  data bucket, and the mutations of the data bucket are exactly the one the operation
  asks for. The trace is what happened: whatever calls reject, carrying out the effects
  of the step on the buckets it started from gives the buckets it ends with. Whatever
  calls reject, a step that has mutated the data bucket has written the metadata record;
  and when the call that mutates the data bucket is the one that rejects, the metadata
  record is already written and the data bucket is still as it was.
\<close>

theorem metadata_before_data:
  assumes "node_id rop \<noteq> NODE_ID"
    and "remoteWins rop (localMeta_of (kvMeta s (key rop)))"
  shows "kvMeta (exec (on_message no_faults NODE_ID rop) s)
           = (kvMeta s)(key rop \<mapsto> \<lparr>ts = ts rop, node_id = node_id rop\<rparr>)
       \<and> map_of (kv (exec (on_message no_faults NODE_ID rop) s))
           = (if op rop = DEL then (map_of (kv s))(key rop := None)
              else case val rop of
                     None \<Rightarrow> map_of (kv s)
                   | Some v \<Rightarrow> (map_of (kv s))(key rop \<mapsto> v))
       \<and> MetaPut (key rop) \<lparr>ts = ts rop, node_id = node_id rop\<rparr>
           \<in> set (takeWhile (\<lambda>e. \<not> is_data_write e)
                   (added s (exec (on_message no_faults NODE_ID rop) s)))
       \<and> filter is_data_write (added s (exec (on_message no_faults NODE_ID rop) s))
           = data_effects rop
       \<and> (kv (exec (on_message F NODE_ID rop) s), kvMeta (exec (on_message F NODE_ID rop) s))
           = replay (added s (exec (on_message F NODE_ID rop) s)) (kv s, kvMeta s)
       \<and> (filter is_data_write (added s (exec (on_message F NODE_ID rop) s)) \<noteq> [] \<longrightarrow>
            MetaPut (key rop) \<lparr>ts = ts rop, node_id = node_id rop\<rparr>
              \<in> set (takeWhile (\<lambda>e. \<not> is_data_write e)
                      (added s (exec (on_message F NODE_ID rop) s))))
       \<and> (kv (exec (on_message F NODE_ID rop) s) \<noteq> kv s \<longrightarrow>
            kvMeta (exec (on_message F NODE_ID rop) s)
              = (kvMeta s)(key rop \<mapsto> \<lparr>ts = ts rop, node_id = node_id rop\<rparr>))
       \<and> (\<not> F (CMetaGet (key rop)) \<and> \<not> F (CMetaPut (key rop))
            \<and> ((op rop = PUT \<and> val rop \<noteq> None \<and> F (CPut (key rop)))
                \<or> (op rop = DEL \<and> F (CDelete (key rop)))) \<longrightarrow>
            kvMeta (exec (on_message F NODE_ID rop) s)
              = (kvMeta s)(key rop \<mapsto> \<lparr>ts = ts rop, node_id = node_id rop\<rparr>)
            \<and> kv (exec (on_message F NODE_ID rop) s) = kv s)"
proof -
  from assms
  have "kvMeta (exec (on_message no_faults NODE_ID rop) s)
           = (kvMeta s)(key rop \<mapsto> \<lparr>ts = ts rop, node_id = node_id rop\<rparr>)"
    and "MetaPut (key rop) \<lparr>ts = ts rop, node_id = node_id rop\<rparr>
           \<in> set (takeWhile (\<lambda>e. \<not> is_data_write e)
                   (added s (exec (on_message no_faults NODE_ID rop) s)))"
    and "filter is_data_write (added s (exec (on_message no_faults NODE_ID rop) s))
           = data_effects rop"
    by (simp_all add: on_message_win exec_def added_def data_effects_def)
  moreover note on_message_win_data [OF assms]
    on_message_replay [of F NODE_ID rop s]
    data_write_after_meta [of s F NODE_ID rop]
    data_mutated_meta_written [of F NODE_ID rop s]
  moreover have "\<not> F (CMetaGet (key rop)) \<and> \<not> F (CMetaPut (key rop))
            \<and> ((op rop = PUT \<and> val rop \<noteq> None \<and> F (CPut (key rop)))
                \<or> (op rop = DEL \<and> F (CDelete (key rop)))) \<longrightarrow>
            kvMeta (exec (on_message F NODE_ID rop) s)
              = (kvMeta s)(key rop \<mapsto> \<lparr>ts = ts rop, node_id = node_id rop\<rparr>)
            \<and> kv (exec (on_message F NODE_ID rop) s) = kv s"
    using data_call_rejected [OF assms, of F] by blast
  ultimately show ?thesis by (intro conjI)
qed

theorem metadata_before_data_witness:
  "added siteX (exec (on_message no_faults ''c'' opA) siteX)
     = [Log (SyncIn ''a'' ''x''), MetaPut ''x'' \<lparr>ts = 5, node_id = ''a''\<rparr>,
        KvPut ''x'' ''1'', Ack]
   \<and> view (exec (on_message no_faults ''c'' opA) siteX) ''x''
     = (Some ''1'', Some \<lparr>ts = 5, node_id = ''a''\<rparr>)
   \<and> view (exec (on_message failPutX ''c'' opA) siteX) ''x''
     = (Some ''old'', Some \<lparr>ts = 5, node_id = ''a''\<rparr>)
   \<and> view (exec (on_message failMetaPutX ''c'' opA) siteX) ''x''
     = (Some ''old'', Some \<lparr>ts = 1, node_id = ''a''\<rparr>)
   \<and> added siteX (exec (on_message no_faults ''c'' opDel) siteX)
     = [Log (SyncIn ''b'' ''x''), MetaPut ''x'' \<lparr>ts = 5, node_id = ''b''\<rparr>,
        KvDelete ''x'', Ack]
   \<and> view (exec (on_message no_faults ''c'' opDel) siteX) ''x''
     = (None, Some \<lparr>ts = 5, node_id = ''b''\<rparr>)"
proof -
  have h: "node_id opA \<noteq> ''c''" "remoteWins opA (localMeta_of (kvMeta siteX (key opA)))"
    "node_id opDel \<noteq> ''c''" "remoteWins opDel (localMeta_of (kvMeta siteX (key opDel)))"
    by (simp_all add: example_defs remoteWins_def localMeta_of_def)
  have rejected: "\<not> failPutX (CMetaGet (key opA)) \<and> \<not> failPutX (CMetaPut (key opA))
      \<and> ((op opA = PUT \<and> val opA \<noteq> None \<and> failPutX (CPut (key opA)))
          \<or> (op opA = DEL \<and> failPutX (CDelete (key opA))))"
    by (simp add: example_defs failPutX_def)
  have traces: "added siteX (exec (on_message no_faults ''c'' opA) siteX)
     = [Log (SyncIn ''a'' ''x''), MetaPut ''x'' \<lparr>ts = 5, node_id = ''a''\<rparr>,
        KvPut ''x'' ''1'', Ack]"
    "added siteX (exec (on_message no_faults ''c'' opDel) siteX)
     = [Log (SyncIn ''b'' ''x''), MetaPut ''x'' \<lparr>ts = 5, node_id = ''b''\<rparr>,
        KvDelete ''x'', Ack]"
    using h by (simp_all add: on_message_win exec_def added_def data_effects_def)
       (simp_all add: example_defs)
  have metaput: "view (exec (on_message failMetaPutX ''c'' opA) siteX) ''x''
     = (Some ''old'', Some \<lparr>ts = 1, node_id = ''a''\<rparr>)"
    by (simp add: example_defs failMetaPutX_def view_def exec_def step_defs
          localMeta_of_def remoteWins_def)
  from metadata_before_data [OF h(1,2), of failPutX] rejected
  have a: "view (exec (on_message no_faults ''c'' opA) siteX) ''x''
       = (Some ''1'', Some \<lparr>ts = 5, node_id = ''a''\<rparr>)"
    and b: "view (exec (on_message failPutX ''c'' opA) siteX) ''x''
       = (Some ''old'', Some \<lparr>ts = 5, node_id = ''a''\<rparr>)"
    by (simp_all add: view_def) (simp_all add: example_defs)
  from metadata_before_data [OF h(3,4), of no_faults]
  have c: "view (exec (on_message no_faults ''c'' opDel) siteX) ''x''
       = (None, Some \<lparr>ts = 5, node_id = ''b''\<rparr>)"
    by (simp add: view_def) (simp add: example_defs)
  from traces metaput a b c show ?thesis by simp
qed

section \<open>A PUT without a value\<close>

text \<open>
  C10. A received \<open>PUT\<close> of another site whose value is \<open>null\<close> and that wins sets the
  metadata record of its key to the operation's timestamp and origin and leaves the data
  bucket as it is: no key is written or deleted, so the key keeps the value of an older
  operation under the metadata of this one.
\<close>

theorem put_null_moves_only_metadata:
  assumes "node_id rop \<noteq> NODE_ID" and "op rop = PUT" and "val rop = None"
    and "remoteWins rop (localMeta_of (kvMeta s (key rop)))"
  shows "kvMeta (exec (on_message no_faults NODE_ID rop) s)
           = (kvMeta s)(key rop \<mapsto> \<lparr>ts = ts rop, node_id = node_id rop\<rparr>)
       \<and> kv (exec (on_message no_faults NODE_ID rop) s) = kv s
       \<and> filter is_data_write (added s (exec (on_message no_faults NODE_ID rop) s)) = []"
  using assms by (simp add: on_message_win exec_def added_def data_effects_def)

theorem put_null_moves_only_metadata_witness:
  "view siteX ''x'' = (Some ''old'', Some \<lparr>ts = 1, node_id = ''a''\<rparr>)
   \<and> view (exec (on_message no_faults ''c'' opNull) siteX) ''x''
       = (Some ''old'', Some \<lparr>ts = 7, node_id = ''b''\<rparr>)"
proof -
  have h: "node_id opNull \<noteq> ''c''" "op opNull = PUT" "val opNull = None"
    "remoteWins opNull (localMeta_of (kvMeta siteX (key opNull)))"
    by (simp_all add: example_defs remoteWins_def localMeta_of_def)
  from put_null_moves_only_metadata [OF h] show ?thesis
    by (simp add: view_def) (simp add: example_defs)
qed

section \<open>The local watcher\<close>

text \<open>
  C7. For a change notification, when a metadata record exists for the key and names
  another site, the watcher does nothing: no metadata write, no publish. Otherwise it
  writes the metadata record \<open>{ts: now, node_id: NODE_ID}\<close> and publishes an operation
  with the key, the notified value, that timestamp and the local site id.
\<close>

theorem watcher_step:
  "exec (on_entry no_faults NODE_ID now (Some e)) s =
     (if foreign_meta s NODE_ID (entry_key e) then s
      else s\<lparr>kvMeta := (kvMeta s)(entry_key e \<mapsto> \<lparr>ts = now, node_id = NODE_ID\<rparr>),
             effects := effects s @
               [MetaPut (entry_key e) \<lparr>ts = now, node_id = NODE_ID\<rparr>,
                Publish \<lparr>ts = now, node_id = NODE_ID,
                         op = (if operation e = OpDEL \<or> entry_value e = None then DEL else PUT),
                         bucket = BUCKET_NAME, key = entry_key e, val = entry_value e\<rparr>,
                Log (SyncOut (if operation e = OpDEL \<or> entry_value e = None then DEL else PUT)
                       (entry_key e) now)]\<rparr>)"
  by (cases "kvMeta s (entry_key e)"; cases "entry_value e")
     (simp_all add: on_entry_def foreign_meta_def exec_def io_defs Let_def)

theorem watcher_step_witness:
  "exec (on_entry no_faults ''b'' 42 (Some entryX)) siteX = siteX
   \<and> added siteX (exec (on_entry no_faults ''a'' 42 (Some entryX)) siteX)
       = [MetaPut ''x'' \<lparr>ts = 42, node_id = ''a''\<rparr>,
          Publish \<lparr>ts = 42, node_id = ''a'', op = PUT, bucket = ''config'', key = ''x'',
                   val = Some ''new''\<rparr>,
          Log (SyncOut PUT ''x'' 42)]"
  using watcher_step [of "''b''" 42 entryX siteX] watcher_step [of "''a''" 42 entryX siteX]
  by (simp add: example_defs foreign_meta_def added_def)

section \<open>Anti-entropy\<close>

lemma publishes_append [simp]: "publishes (xs @ ys) = publishes xs @ publishes ys"
  by (induction xs rule: publishes.induct) simp_all

lemma publishes_map_Publish [simp]: "publishes (map Publish ps) = ps"
  by (induction ps) simp_all

lemma rebroadcast_effects [simp]:
  "rebroadcast (s\<lparr>effects := es\<rparr>) ks = rebroadcast s ks"
  by (induction ks) (simp_all split: option.splits)

lemma raises_at_effects [simp]:
  "raises_at F (s\<lparr>effects := es\<rparr>) k = raises_at F s k"
  by (simp add: raises_at_def)

lemma no_faults_raises [simp]: "\<not> raises_at no_faults s k"
  by (simp add: raises_at_def no_faults_def)

lemma set_rebroadcast:
  "set (rebroadcast s ks) =
     {\<lparr>ts = ts m, node_id = node_id m, op = PUT, bucket = BUCKET_NAME, key = k, val = Some v\<rparr>
        | k v m. k \<in> set ks \<and> map_of (kv s) k = Some v \<and> kvMeta s k = Some m}"
  by (induction ks) (auto split: option.splits)

lemma filter_meta_write_Publish [simp]: "filter is_meta_write (map Publish ps) = []"
  by (induction ps) simp_all

lemma reconcile_keys_ok:
  "\<forall>k \<in> set ks. \<not> raises_at F s k \<Longrightarrow>
   reconcile_keys F ks c s =
     (Inr (c + length (rebroadcast s ks)),
      s\<lparr>effects := effects s @ map Publish (rebroadcast s ks)\<rparr>)"
proof (induction ks arbitrary: c s)
  case Nil
  then show ?case by simp
next
  case (Cons k ks)
  from Cons.prems have k: "\<not> F (CGet k)" "\<not> F (CMetaGet k)"
    and rest: "\<forall>k' \<in> set ks. \<not> raises_at F s k'"
    by (simp_all add: raises_at_def)
  show ?case
  proof (cases "map_of (kv s) k = None \<or> kvMeta s k = None")
    case True
    with k Cons.IH [OF rest, of c] show ?thesis
      by (auto simp: kv_get_def kvMeta_get_def await_def split: option.splits)
  next
    case False
    then obtain v m where vm: "map_of (kv s) k = Some v" "kvMeta s k = Some m"
      by auto
    with Cons.prems have pub: "\<not> F (CPublish k)"
      by (simp add: raises_at_def)
    let ?p = "\<lparr>ts = ts m, node_id = node_id m, op = PUT, bucket = BUCKET_NAME, key = k, val = Some v\<rparr>"
    let ?s3 = "s\<lparr>effects := effects s @ [Publish ?p]\<rparr>"
    from rest have "\<forall>k' \<in> set ks. \<not> raises_at F ?s3 k'" by simp
    from Cons.IH [OF this, of "c + 1"] k pub vm show ?thesis
      by (simp add: kv_get_def kvMeta_get_def js_publish_def await_def emit_def)
  qed
qed

lemma reconcile_keys_raise:
  assumes "\<forall>k' \<in> set ks1. \<not> raises_at F s k'" and "raises_at F s k"
  shows "\<exists>e. reconcile_keys F (ks1 @ k # ks2) c s =
     (Inl e, s\<lparr>effects := effects s @ map Publish (rebroadcast s ks1)\<rparr>)"
  using assms
proof (induction ks1 arbitrary: c s)
  case Nil
  then show ?case
    by (auto simp: raises_at_def kv_get_def kvMeta_get_def js_publish_def await_def emit_def io_throw_def)
next
  case (Cons k1 ks1)
  from Cons.prems have k: "\<not> F (CGet k1)" "\<not> F (CMetaGet k1)"
    and rest: "\<forall>k' \<in> set ks1. \<not> raises_at F s k'"
    by (simp_all add: raises_at_def)
  show ?case
  proof (cases "map_of (kv s) k1 = None \<or> kvMeta s k1 = None")
    case True
    with k Cons.IH [OF rest Cons.prems(2), of c] show ?thesis
      by (auto simp: kv_get_def kvMeta_get_def await_def split: option.splits)
  next
    case False
    then obtain v m where vm: "map_of (kv s) k1 = Some v" "kvMeta s k1 = Some m"
      by auto
    with Cons.prems have pub: "\<not> F (CPublish k1)"
      by (simp add: raises_at_def)
    let ?p = "\<lparr>ts = ts m, node_id = node_id m, op = PUT, bucket = BUCKET_NAME, key = k1, val = Some v\<rparr>"
    let ?s3 = "s\<lparr>effects := effects s @ [Publish ?p]\<rparr>"
    from rest have r: "\<forall>k' \<in> set ks1. \<not> raises_at F ?s3 k'" by simp
    from Cons.prems(2) have r2: "raises_at F ?s3 k" by simp
    from Cons.IH [OF r r2, of "c + 1"] k pub vm show ?thesis
      by (simp add: kv_get_def kvMeta_get_def js_publish_def await_def emit_def)
  qed
qed

lemma cycle_ok:
  assumes "\<not> F CKeys" and "\<forall>k \<in> set (map fst (kv s)). \<not> raises_at F s k"
  shows "antiEntropy_cycle F s =
     s\<lparr>effects := effects s @ Log CycleStart # map Publish (rebroadcast s (map fst (kv s)))
          @ [Log (CycleEnd (length (rebroadcast s (map fst (kv s)))))]\<rparr>"
proof -
  let ?s0 = "s\<lparr>effects := effects s @ [Log CycleStart]\<rparr>"
  from assms(2) have "\<forall>k \<in> set (map fst (kv s)). \<not> raises_at F ?s0 k" by simp
  from reconcile_keys_ok [OF this, of 0] assms(1) show ?thesis
    by (simp add: antiEntropy_cycle_def io_bind_def console_log_def emit_def kv_keys_def await_def)
qed

lemma cycle_abort:
  assumes "\<not> F CKeys" and "map fst (kv s) = ks1 @ k # ks2"
    and "\<forall>k' \<in> set ks1. \<not> raises_at F s k'" and "raises_at F s k"
  shows "antiEntropy_cycle F s =
     s\<lparr>effects := effects s @ Log CycleStart # map Publish (rebroadcast s ks1) @ [Log CycleError]\<rparr>"
proof -
  let ?s0 = "s\<lparr>effects := effects s @ [Log CycleStart]\<rparr>"
  from assms(3) have a: "\<forall>k' \<in> set ks1. \<not> raises_at F ?s0 k'" by simp
  from assms(4) have b: "raises_at F ?s0 k" by simp
  from reconcile_keys_raise [OF a b, of ks2 0] obtain e where
    "reconcile_keys F (ks1 @ k # ks2) 0 ?s0 =
       (Inl e, ?s0\<lparr>effects := effects ?s0 @ map Publish (rebroadcast ?s0 ks1)\<rparr>)"
    by blast
  with assms(1,2) show ?thesis
    by (simp add: antiEntropy_cycle_def io_bind_def console_log_def emit_def kv_keys_def await_def)
qed


lemma reconcile_keys_stores:
  "reconcile_keys F ks c s = (r, s') \<Longrightarrow>
     kv s' = kv s \<and> kvMeta s' = kvMeta s
     \<and> (\<exists>ps. effects s' = effects s @ map Publish ps \<and> set ps \<subseteq> set (rebroadcast s ks))"
proof (induction ks arbitrary: c s)
  case Nil
  then have "s' = s" by simp
  then have "effects s' = effects s @ map Publish []" by simp
  with \<open>s' = s\<close> show ?case by fastforce
next
  case (Cons k ks)
  show ?case
  proof (cases "F (CGet k) \<or> F (CMetaGet k)")
    case True
    with Cons.prems have "s' = s"
      by (auto simp: kv_get_def kvMeta_get_def await_def io_throw_def split: if_splits)
    then have "effects s' = effects s @ map Publish []" by simp
    with \<open>s' = s\<close> show ?thesis by fastforce
  next
    case ok: False
    show ?thesis
    proof (cases "map_of (kv s) k = None \<or> kvMeta s k = None")
      case True
      with ok Cons.prems have "reconcile_keys F ks c s = (r, s')"
        by (auto simp: kv_get_def kvMeta_get_def await_def)
      from Cons.IH [OF this] obtain ps where
        ps: "kv s' = kv s" "kvMeta s' = kvMeta s" "effects s' = effects s @ map Publish ps"
          "set ps \<subseteq> set (rebroadcast s ks)"
        by blast
      from True have "rebroadcast s (k # ks) = rebroadcast s ks"
        by (auto split: option.splits)
      with ps show ?thesis by metis
    next
      case both: False
      then obtain v m where vm: "map_of (kv s) k = Some v" "kvMeta s k = Some m"
        by auto
      let ?p = "\<lparr>ts = ts m, node_id = node_id m, op = PUT, bucket = BUCKET_NAME, key = k,
                 val = Some v\<rparr>"
      have rb: "rebroadcast s (k # ks) = ?p # rebroadcast s ks"
        using vm by simp
      show ?thesis
      proof (cases "F (CPublish k)")
        case True
        with ok vm Cons.prems have "s' = s"
          by (auto simp: kv_get_def kvMeta_get_def js_publish_def await_def io_throw_def)
        then have "effects s' = effects s @ map Publish []" by simp
        with \<open>s' = s\<close> show ?thesis by fastforce
      next
        case False
        let ?s3 = "s\<lparr>effects := effects s @ [Publish ?p]\<rparr>"
        from False ok vm Cons.prems have "reconcile_keys F ks (c + 1) ?s3 = (r, s')"
          by (auto simp: kv_get_def kvMeta_get_def js_publish_def await_def emit_def)
        from Cons.IH [OF this] obtain ps where
          ps: "kv s' = kv s" "kvMeta s' = kvMeta s" "effects s' = effects s @ map Publish (?p # ps)"
            "set ps \<subseteq> set (rebroadcast s ks)"
          by auto
        from ps(4) have "set (?p # ps) \<subseteq> set (rebroadcast s (k # ks))"
          unfolding rb by auto
        with ps(1-3) show ?thesis by blast
      qed
    qed
  qed
qed

lemma cycle_stores:
  "kv (antiEntropy_cycle F s) = kv s \<and> kvMeta (antiEntropy_cycle F s) = kvMeta s
   \<and> filter is_meta_write (added s (antiEntropy_cycle F s)) = []
   \<and> set (publishes (added s (antiEntropy_cycle F s))) \<subseteq> set (rebroadcast s (map fst (kv s)))"
proof (cases "F CKeys")
  case True
  then show ?thesis
    by (simp add: antiEntropy_cycle_def io_bind_def console_log_def emit_def kv_keys_def
          await_def io_throw_def added_def)
next
  case False
  let ?s0 = "s\<lparr>effects := effects s @ [Log CycleStart]\<rparr>"
  obtain r s' where rs: "reconcile_keys F (map fst (kv s)) 0 ?s0 = (r, s')"
    by (cases "reconcile_keys F (map fst (kv s)) 0 ?s0")
  from reconcile_keys_stores [OF rs] obtain ps where
    s': "kv s' = kv s" "kvMeta s' = kvMeta s"
        "effects s' = effects s @ Log CycleStart # map Publish ps"
        "set ps \<subseteq> set (rebroadcast s (map fst (kv s)))"
    by auto
  from False rs s' show ?thesis
    by (cases r)
       (simp_all add: antiEntropy_cycle_def io_bind_def console_log_def emit_def kv_keys_def
          await_def added_def)
qed

text \<open>
  C8. In a cycle whose calls resolve, every key with a value and a metadata record is
  published as a \<open>PUT\<close> of the stored value with the stored timestamp and origin.
  Whatever calls reject, every operation a cycle publishes is of this kind, so a key
  lacking the value or the record is skipped and no fresh timestamp appears, and the
  cycle writes nothing to the metadata bucket.
\<close>

theorem antiEntropy_rebroadcasts_stored:
  "(\<forall>k v m. map_of (kv s) k = Some v \<and> kvMeta s k = Some m \<longrightarrow>
       \<lparr>ts = ts m, node_id = node_id m, op = PUT, bucket = BUCKET_NAME, key = k, val = Some v\<rparr>
         \<in> set (publishes (added s (antiEntropy_cycle no_faults s))))
   \<and> (\<forall>p \<in> set (publishes (added s (antiEntropy_cycle F s))).
        op p = PUT \<and> val p \<noteq> None \<and> map_of (kv s) (key p) = val p
        \<and> kvMeta s (key p) = Some \<lparr>ts = ts p, node_id = node_id p\<rparr>)
   \<and> kvMeta (antiEntropy_cycle F s) = kvMeta s
   \<and> filter is_meta_write (added s (antiEntropy_cycle F s)) = []"
proof -
  have "antiEntropy_cycle no_faults s =
     s\<lparr>effects := effects s @ Log CycleStart # map Publish (rebroadcast s (map fst (kv s)))
          @ [Log (CycleEnd (length (rebroadcast s (map fst (kv s)))))]\<rparr>"
    by (rule cycle_ok) (simp_all add: no_faults_def raises_at_def)
  then have pub: "publishes (added s (antiEntropy_cycle no_faults s))
      = rebroadcast s (map fst (kv s))"
    by (simp add: added_def)
  have "k \<in> set (map fst (kv s))" if "map_of (kv s) k = Some v" for k v
    using that by (auto dest: map_of_SomeD intro: rev_image_eqI)
  then have first: "\<forall>k v m. map_of (kv s) k = Some v \<and> kvMeta s k = Some m \<longrightarrow>
       \<lparr>ts = ts m, node_id = node_id m, op = PUT, bucket = BUCKET_NAME, key = k, val = Some v\<rparr>
         \<in> set (publishes (added s (antiEntropy_cycle no_faults s)))"
    unfolding pub set_rebroadcast by auto
  from cycle_stores [of F s]
  have sub: "set (publishes (added s (antiEntropy_cycle F s)))
      \<subseteq> set (rebroadcast s (map fst (kv s)))"
    and meta: "kvMeta (antiEntropy_cycle F s) = kvMeta s"
      "filter is_meta_write (added s (antiEntropy_cycle F s)) = []"
    by simp_all
  have second: "\<forall>p \<in> set (publishes (added s (antiEntropy_cycle F s))).
        op p = PUT \<and> val p \<noteq> None \<and> map_of (kv s) (key p) = val p
        \<and> kvMeta s (key p) = Some \<lparr>ts = ts p, node_id = node_id p\<rparr>"
    using sub unfolding set_rebroadcast by auto
  from first second meta show ?thesis by blast
qed

theorem antiEntropy_rebroadcasts_stored_witness:
  "publishes (added siteABCD (antiEntropy_cycle no_faults siteABCD))
     = [\<lparr>ts = 1, node_id = ''n1'', op = PUT, bucket = ''config'', key = ''a'', val = Some ''1''\<rparr>,
        \<lparr>ts = 2, node_id = ''n2'', op = PUT, bucket = ''config'', key = ''b'', val = Some ''2''\<rparr>,
        \<lparr>ts = 3, node_id = ''n1'', op = PUT, bucket = ''config'', key = ''c'', val = Some ''3''\<rparr>]
   \<and> kvMeta (antiEntropy_cycle no_faults siteABCD) = kvMeta siteABCD"
proof -
  have "added siteABCD (antiEntropy_cycle no_faults siteABCD)
     = [Log CycleStart,
        Publish \<lparr>ts = 1, node_id = ''n1'', op = PUT, bucket = ''config'', key = ''a'',
                 val = Some ''1''\<rparr>,
        Publish \<lparr>ts = 2, node_id = ''n2'', op = PUT, bucket = ''config'', key = ''b'',
                 val = Some ''2''\<rparr>,
        Publish \<lparr>ts = 3, node_id = ''n1'', op = PUT, bucket = ''config'', key = ''c'',
                 val = Some ''3''\<rparr>,
        Log (CycleEnd 3)]"
    by (simp add: example_defs antiEntropy_cycle_def io_defs added_def)
  moreover from antiEntropy_rebroadcasts_stored [of siteABCD no_faults]
  have "kvMeta (antiEntropy_cycle no_faults siteABCD) = kvMeta siteABCD"
    by blast
  ultimately show ?thesis by simp
qed

text \<open>
  C9, as stated, fails: when \<open>kv.get\<close> rejects for key \<open>b\<close>, the cycle prints the error
  and ends; key \<open>c\<close>, which comes later and has a value and a metadata record, is not
  published in that cycle.
\<close>

theorem failed_key_counterexample:
  "raises_at failGetB siteABCD ''b''
   \<and> map_of (kv siteABCD) ''c'' = Some ''3''
   \<and> kvMeta siteABCD ''c'' = Some \<lparr>ts = 3, node_id = ''n1''\<rparr>
   \<and> added siteABCD (antiEntropy_cycle failGetB siteABCD)
       = [Log CycleStart,
          Publish \<lparr>ts = 1, node_id = ''n1'', op = PUT, bucket = ''config'', key = ''a'',
                   val = Some ''1''\<rparr>,
          Log CycleError]
   \<and> \<lparr>ts = 3, node_id = ''n1'', op = PUT, bucket = ''config'', key = ''c'', val = Some ''3''\<rparr>
       \<notin> set (publishes (added siteABCD (antiEntropy_cycle failGetB siteABCD)))"
  by (simp add: example_defs raises_at_def antiEntropy_cycle_def io_defs added_def)

text \<open>
  C9, amended. When reconciling a key raises, the error is printed and the cycle ends
  there: the keys before it have been published, the failing key and the keys after it
  are not. The next tick runs a cycle all the same, which (its calls resolving) publishes
  every key with a value and a metadata record.
\<close>

theorem failed_key_ends_cycle:
  assumes "\<not> F CKeys" and "map fst (kv s) = ks1 @ k # ks2"
    and "\<forall>k' \<in> set ks1. \<not> raises_at F s k'" and "raises_at F s k"
  shows "added s (antiEntropy_cycle F s)
           = Log CycleStart # map Publish (rebroadcast s ks1) @ [Log CycleError]
       \<and> added (antiEntropy_cycle F s) (startAntiEntropy [F, no_faults] s)
           = Log CycleStart # map Publish (rebroadcast s (map fst (kv s)))
             @ [Log (CycleEnd (length (rebroadcast s (map fst (kv s)))))]"
proof -
  let ?s1 = "antiEntropy_cycle F s"
  have s1: "?s1 = s\<lparr>effects := effects s @ Log CycleStart # map Publish (rebroadcast s ks1)
                      @ [Log CycleError]\<rparr>"
    using assms by (rule cycle_abort)
  have "antiEntropy_cycle no_faults ?s1 =
     ?s1\<lparr>effects := effects ?s1 @ Log CycleStart # map Publish (rebroadcast ?s1 (map fst (kv ?s1)))
          @ [Log (CycleEnd (length (rebroadcast ?s1 (map fst (kv ?s1)))))]\<rparr>"
    by (rule cycle_ok) (simp_all add: no_faults_def raises_at_def)
  then have "added ?s1 (startAntiEntropy [F, no_faults] s) =
     Log CycleStart # map Publish (rebroadcast ?s1 (map fst (kv ?s1)))
          @ [Log (CycleEnd (length (rebroadcast ?s1 (map fst (kv ?s1)))))]"
    by (simp add: added_def)
  moreover have "rebroadcast ?s1 (map fst (kv ?s1)) = rebroadcast s (map fst (kv s))"
    unfolding s1 by simp
  moreover have "added s ?s1 = Log CycleStart # map Publish (rebroadcast s ks1) @ [Log CycleError]"
    unfolding s1 by (simp add: added_def)
  ultimately show ?thesis by simp
qed

theorem failed_key_ends_cycle_witness:
  "added siteABCD (antiEntropy_cycle failGetB siteABCD)
     = [Log CycleStart,
        Publish \<lparr>ts = 1, node_id = ''n1'', op = PUT, bucket = ''config'', key = ''a'',
                 val = Some ''1''\<rparr>,
        Log CycleError]
   \<and> publishes (added (antiEntropy_cycle failGetB siteABCD)
                  (startAntiEntropy [failGetB, no_faults] siteABCD))
     = [\<lparr>ts = 1, node_id = ''n1'', op = PUT, bucket = ''config'', key = ''a'', val = Some ''1''\<rparr>,
        \<lparr>ts = 2, node_id = ''n2'', op = PUT, bucket = ''config'', key = ''b'', val = Some ''2''\<rparr>,
        \<lparr>ts = 3, node_id = ''n1'', op = PUT, bucket = ''config'', key = ''c'', val = Some ''3''\<rparr>]"
proof -
  have h: "\<not> failGetB CKeys" "map fst (kv siteABCD) = [''a''] @ ''b'' # [''c'', ''d'']"
    "\<forall>k' \<in> set [''a'']. \<not> raises_at failGetB siteABCD k'" "raises_at failGetB siteABCD ''b''"
    by (simp_all add: example_defs raises_at_def)
  from failed_key_ends_cycle [OF h] show ?thesis
    by (simp del: startAntiEntropy.simps) (simp add: example_defs)
qed


section \<open>Convergence\<close>

lemma on_message_no_faults_total: "fst (on_message no_faults N m s) = Inr ()"
  by (cases "node_id m = N"; cases "remoteWins m (localMeta_of (kvMeta s (key m)))")
     (simp_all add: on_message_self on_message_win on_message_lose)

lemma remote_listener_step:
  "remote_listener no_faults N (m # ms) s =
     remote_listener no_faults N ms (exec (on_message no_faults N m) s)"
  using on_message_no_faults_total [of N m s]
  by (cases "on_message no_faults N m s") (auto simp: exec_def)

lemma remote_listener_total: "fst (remote_listener no_faults N ms s) = Inr ()"
  by (induction ms arbitrary: s) (simp_all add: remote_listener_step del: remote_listener.simps(2))

lemma view_beats:
  assumes "beats N m s" and "op m = PUT \<longrightarrow> val m \<noteq> None"
  shows "view (exec (on_message no_faults N m) s) (key m) = outcome m"
proof (cases "op m")
  case PUT
  with assms show ?thesis
    by (auto simp: beats_def on_message_win exec_def view_def outcome_def update_conv')
next
  case DEL
  with assms show ?thesis
    by (auto simp: beats_def on_message_win exec_def view_def outcome_def delete_conv')
qed

lemma view_not_beats:
  assumes "\<not> beats N m s"
  shows "view (exec (on_message no_faults N m) s) k = view s k"
proof (cases "node_id m = N")
  case True
  then show ?thesis by (simp add: on_message_self exec_def view_def)
next
  case False
  with assms show ?thesis by (simp add: beats_def on_message_lose exec_def view_def)
qed

lemma stamp_local_outcome:
  "view s K = outcome m \<Longrightarrow> stamp (localMeta_of (kvMeta s K)) = stamp m"
  by (simp add: view_def outcome_def localMeta_of_def stamp_def)

lemma settled_step:
  assumes keym: "key m = K" and wfm: "op m = PUT \<longrightarrow> val m \<noteq> None"
    and keys: "\<forall>m \<in> set ms. key m = K"
    and IH: "settled N K ms (exec (on_message no_faults N m) s) v"
  shows "settled N K (m # ms) s v"
proof -
  let ?s1 = "exec (on_message no_faults N m) s"
  show ?thesis
  proof (cases "beats N m s")
    case True
    with wfm have v1: "view ?s1 K = outcome m"
      using view_beats keym by blast
    then have st1: "stamp (localMeta_of (kvMeta ?s1 K)) = stamp m"
      by (rule stamp_local_outcome)
    from IH [unfolded settled_def] show ?thesis
    proof (elim disjE conjE bexE)
      assume a: "v = view ?s1 K"
        and b: "\<forall>m' \<in> set ms. \<not> beats N m' ?s1"
      have "\<forall>m' \<in> set (m # ms). node_id m' \<noteq> N \<longrightarrow> stamp m' \<le> stamp m"
        using b keys st1 by (auto simp: beats_def remoteWins_stamp)
      with True a v1 show ?thesis unfolding settled_def by auto
    next
      fix m2 assume m2: "m2 \<in> set ms" and b2: "beats N m2 ?s1"
        and v2: "v = outcome m2"
        and mx: "\<forall>m' \<in> set ms. node_id m' \<noteq> N \<longrightarrow> stamp m' \<le> stamp m2"
      from b2 keys m2 st1 have lt: "stamp m < stamp m2"
        by (auto simp: beats_def remoteWins_stamp)
      from True keym have "stamp (localMeta_of (kvMeta s K)) < stamp m"
        by (auto simp: beats_def remoteWins_stamp)
      with lt b2 keys m2 have "beats N m2 s"
        by (auto simp: beats_def remoteWins_stamp)
      moreover from lt mx have "\<forall>m' \<in> set (m # ms). node_id m' \<noteq> N \<longrightarrow> stamp m' \<le> stamp m2"
        by auto
      ultimately show ?thesis using m2 v2 unfolding settled_def by auto
    qed
  next
    case False
    then have v1: "view ?s1 K = view s K"
      by (rule view_not_beats)
    then have meta: "kvMeta ?s1 K = kvMeta s K"
      by (simp add: view_def)
    have same: "beats N m' ?s1 = beats N m' s" if "m' \<in> set ms" for m'
      using that keys meta by (simp add: beats_def)
    from IH [unfolded settled_def] show ?thesis
    proof (elim disjE conjE bexE)
      assume a: "v = view ?s1 K"
        and b: "\<forall>m' \<in> set ms. \<not> beats N m' ?s1"
      with False same v1 show ?thesis unfolding settled_def by auto
    next
      fix m2 assume m2: "m2 \<in> set ms" and b2: "beats N m2 ?s1"
        and v2: "v = outcome m2"
        and mx: "\<forall>m' \<in> set ms. node_id m' \<noteq> N \<longrightarrow> stamp m' \<le> stamp m2"
      from b2 m2 same have b2s: "beats N m2 s" by simp
      have "node_id m \<noteq> N \<longrightarrow> stamp m \<le> stamp m2"
      proof
        assume "node_id m \<noteq> N"
        with False keym have "stamp m \<le> stamp (localMeta_of (kvMeta s K))"
          by (auto simp: beats_def remoteWins_stamp)
        moreover from b2s keys m2 have "stamp (localMeta_of (kvMeta s K)) < stamp m2"
          by (auto simp: beats_def remoteWins_stamp)
        ultimately show "stamp m \<le> stamp m2" by simp
      qed
      with mx have "\<forall>m' \<in> set (m # ms). node_id m' \<noteq> N \<longrightarrow> stamp m' \<le> stamp m2"
        by simp
      with b2s m2 v2 show ?thesis unfolding settled_def by auto
    qed
  qed
qed

lemma listener_settled:
  assumes "\<forall>m \<in> set ms. key m = K"
    and "\<forall>m \<in> set ms. op m = PUT \<longrightarrow> val m \<noteq> None"
  shows "settled N K ms s (view (exec (remote_listener no_faults N ms) s) K)"
  using assms
proof (induction ms arbitrary: s)
  case Nil
  then show ?case by (simp add: exec_def settled_def)
next
  case (Cons m ms)
  let ?s1 = "exec (on_message no_faults N m) s"
  have fin: "exec (remote_listener no_faults N (m # ms)) s = exec (remote_listener no_faults N ms) ?s1"
    by (simp add: exec_def [of "remote_listener no_faults N (m # ms)"] remote_listener_step
          exec_def [of "remote_listener no_faults N ms"] del: remote_listener.simps)
  from Cons.prems have keym: "key m = K" and keys: "\<forall>m \<in> set ms. key m = K"
    and wf: "\<forall>m \<in> set ms. op m = PUT \<longrightarrow> val m \<noteq> None" and wfm: "op m = PUT \<longrightarrow> val m \<noteq> None"
    by simp_all
  from Cons.IH [OF keys wf, of ?s1]
  have "settled N K (m # ms) s (view (exec (remote_listener no_faults N ms) ?s1) K)"
    by (rule settled_step [OF keym wfm keys])
  then show ?case by (simp only: fin)
qed

lemma settled_unique:
  assumes "settled N K xs s v" and "settled N K ys s w" and "set xs = set ys"
    and same: "\<forall>a \<in> set xs. \<forall>b \<in> set xs. ts a = ts b \<and> node_id a = node_id b
                 \<longrightarrow> op a = op b \<and> (op a = PUT \<longrightarrow> val a = val b)"
  shows "v = w"
  using assms(1,2) unfolding settled_def
proof (elim disjE conjE bexE)
  assume "v = view s K" "w = view s K"
  then show ?thesis by simp
next
  fix m assume "\<forall>m \<in> set xs. \<not> beats N m s" "m \<in> set ys" "beats N m s"
  with assms(3) show ?thesis by auto
next
  fix m assume "\<forall>m \<in> set ys. \<not> beats N m s" "m \<in> set xs" "beats N m s"
  with assms(3) show ?thesis by auto
next
  fix a b
  assume a: "a \<in> set xs" "beats N a s" "v = outcome a"
    "\<forall>m' \<in> set xs. node_id m' \<noteq> N \<longrightarrow> stamp m' \<le> stamp a"
  assume b: "b \<in> set ys" "beats N b s" "w = outcome b"
    "\<forall>m' \<in> set ys. node_id m' \<noteq> N \<longrightarrow> stamp m' \<le> stamp b"
  from a b assms(3) have "stamp a \<le> stamp b" "stamp b \<le> stamp a"
    by (auto simp: beats_def)
  then have "stamp a = stamp b" by simp
  then have eq: "ts a = ts b" "node_id a = node_id b"
    by (simp_all add: stamp_def)
  with same a(1) b(1) assms(3) have "op a = op b \<and> (op a = PUT \<longrightarrow> val a = val b)"
    by blast
  with eq have "outcome a = outcome b"
    by (cases "op a") (auto simp: outcome_def)
  with a(3) b(3) show ?thesis by simp
qed

text \<open>
  C2, as stated, fails twice. Two operations with the same timestamp and origin but
  different values (two local writes within one millisecond): whichever comes first
  stays. And a \<open>PUT\<close> of \<open>null\<close> that wins keeps whatever value was there, which
  depends on what was applied before it.
\<close>

theorem lww_convergence_counterexample:
  "set [opA, opA2] = set [opA2, opA]
   \<and> view (exec (remote_listener no_faults ''c'' [opA, opA2]) site0) ''x''
       = (Some ''1'', Some \<lparr>ts = 5, node_id = ''a''\<rparr>)
   \<and> view (exec (remote_listener no_faults ''c'' [opA2, opA]) site0) ''x''
       = (Some ''2'', Some \<lparr>ts = 5, node_id = ''a''\<rparr>)
   \<and> view (exec (remote_listener no_faults ''c'' [opA, opA2]) site0) ''x''
       \<noteq> view (exec (remote_listener no_faults ''c'' [opA2, opA]) site0) ''x''
   \<and> set [opA, opNull] = set [opNull, opA]
   \<and> view (exec (remote_listener no_faults ''c'' [opA, opNull]) site0) ''x''
       = (Some ''1'', Some \<lparr>ts = 7, node_id = ''b''\<rparr>)
   \<and> view (exec (remote_listener no_faults ''c'' [opNull, opA]) site0) ''x''
       = (None, Some \<lparr>ts = 7, node_id = ''b''\<rparr>)
   \<and> view (exec (remote_listener no_faults ''c'' [opA, opNull]) site0) ''x''
       \<noteq> view (exec (remote_listener no_faults ''c'' [opNull, opA]) site0) ''x''"
  by (simp add: example_defs exec_def view_def on_message_def io_defs localMeta_of_def
        remoteWins_def insert_commute)

text \<open>
  C2, amended. Take operations for a single key in which every \<open>PUT\<close> carries a value and
  operations with the same timestamp and origin have the same kind and, for a \<open>PUT\<close>,
  the same value. Two runs of the listener over the same set of them, in any order and
  with any duplication, from the same site, both run to the end and leave the same value
  and metadata record for the key.
\<close>

theorem lww_convergence:
  assumes "set xs = set ys"
    and "\<forall>m \<in> set xs. key m = K"
    and "\<forall>m \<in> set xs. op m = PUT \<longrightarrow> val m \<noteq> None"
    and "\<forall>a \<in> set xs. \<forall>b \<in> set xs. ts a = ts b \<and> node_id a = node_id b
           \<longrightarrow> op a = op b \<and> (op a = PUT \<longrightarrow> val a = val b)"
  shows "fst (remote_listener no_faults NODE_ID xs s) = Inr ()
       \<and> fst (remote_listener no_faults NODE_ID ys s) = Inr ()
       \<and> view (exec (remote_listener no_faults NODE_ID xs) s) K
           = view (exec (remote_listener no_faults NODE_ID ys) s) K"
proof -
  have x: "settled NODE_ID K xs s (view (exec (remote_listener no_faults NODE_ID xs) s) K)"
    using assms(2,3) by (rule listener_settled)
  have y: "settled NODE_ID K ys s (view (exec (remote_listener no_faults NODE_ID ys) s) K)"
    using assms(2,3) unfolding assms(1) by (rule listener_settled)
  from x y assms(1,4)
  have "view (exec (remote_listener no_faults NODE_ID xs) s) K
      = view (exec (remote_listener no_faults NODE_ID ys) s) K"
    by (rule settled_unique)
  then show ?thesis by (simp add: remote_listener_total)
qed


theorem lww_convergence_witness:
  "set [opA, opB] = set [opB, opA, opB]
   \<and> view (exec (remote_listener no_faults ''c'' [opA, opB]) site0) ''x''
       = view (exec (remote_listener no_faults ''c'' [opB, opA, opB]) site0) ''x''
   \<and> view (exec (remote_listener no_faults ''c'' [opA, opB]) site0) ''x''
       = (Some ''1'', Some \<lparr>ts = 5, node_id = ''a''\<rparr>)"
proof -
  have h: "set [opA, opB] = set [opB, opA, opB]"
    "\<forall>m \<in> set [opA, opB]. key m = ''x''"
    "\<forall>m \<in> set [opA, opB]. op m = PUT \<longrightarrow> val m \<noteq> None"
    "\<forall>a \<in> set [opA, opB]. \<forall>b \<in> set [opA, opB]. ts a = ts b \<and> node_id a = node_id b
       \<longrightarrow> op a = op b \<and> (op a = PUT \<longrightarrow> val a = val b)"
    by (auto simp: example_defs)
  have "view (exec (remote_listener no_faults ''c'' [opA, opB]) site0) ''x''
       = (Some ''1'', Some \<lparr>ts = 5, node_id = ''a''\<rparr>)"
    by (simp add: example_defs exec_def view_def on_message_def io_defs localMeta_of_def
          remoteWins_def)
  with lww_convergence [OF h, of "''c''" site0] h(1) show ?thesis
    by simp
qed

end
